theory Spec2Isabelle
  imports Main "HOL-Library.Word"
begin

section \<open>JavaScript values and strings\<close>

text \<open>
  A JavaScript string is a sequence of 16-bit code units; \<open>s.length\<close> counts them and
  \<open>s[i]\<close> reads one. String literals of this development are written as Isabelle strings
  and converted by \<open>utf16\<close>; every literal used below is ASCII.
\<close>

type_synonym code_unit = "16 word"
type_synonym jsstring = "code_unit list"

abbreviation cu :: "char \<Rightarrow> code_unit" where
  "cu c \<equiv> of_char c"

definition utf16 :: "string \<Rightarrow> jsstring" where
  "utf16 = map of_char"

text \<open>
  The values that occur: \<open>undefined\<close> and what \<open>JSON.parse\<close> can return. A number is kept
  as the decimal it was written as, \<open>Num neg m e\<close> standing for \<open>(-1)^neg * m * 10^e\<close>; the
  only question the program asks of a number is whether it is truthy. An object is the list
  of its members.
\<close>

datatype jsval =
    Undefined
  | Null
  | Bool bool
  | Num bool nat int
  | Str jsstring
  | Arr "jsval list"
  | Obj "(jsstring \<times> jsval) list"

datatype exn = SyntaxError | Error string

fun typeof :: "jsval \<Rightarrow> string" where
  "typeof Undefined = ''undefined''"
| "typeof Null = ''object''"
| "typeof (Bool _) = ''boolean''"
| "typeof (Num _ _ _) = ''number''"
| "typeof (Str _) = ''string''"
| "typeof (Arr _) = ''object''"
| "typeof (Obj _) = ''object''"

text \<open>
  A decimal becomes the double \<open>0\<close> (or \<open>-0\<close>) when it is zero or at most \<open>2^-1075\<close>, half
  of the smallest positive double, the tie going to the even neighbour \<open>0\<close>.
\<close>

definition rounds_to_zero :: "nat \<Rightarrow> int \<Rightarrow> bool" where
  "rounds_to_zero m e = (m = 0 \<or> (e < 0 \<and> m * 2 ^ 1075 \<le> 10 ^ nat (- e)))"

text \<open>\<open>ToBoolean\<close>: what \<open>if (v)\<close> and \<open>!v\<close> test.\<close>

fun to_boolean :: "jsval \<Rightarrow> bool" where
  "to_boolean Undefined = False"
| "to_boolean Null = False"
| "to_boolean (Bool b) = b"
| "to_boolean (Num _ m e) = (\<not> rounds_to_zero m e)"
| "to_boolean (Str s) = (s \<noteq> [])"
| "to_boolean (Arr _) = True"
| "to_boolean (Obj _) = True"

text \<open>\<open>s.slice(a, b)\<close> for indices \<open>0 \<le> a\<close>, \<open>0 \<le> b\<close>; indices beyond the end are clamped.\<close>

definition slice :: "jsstring \<Rightarrow> nat \<Rightarrow> nat \<Rightarrow> jsstring" where
  "slice s a b = take (b - a) (drop a s)"

text \<open>
  \<open>s.trim()\<close> removes the white space and line terminators of ECMAScript from both ends.
\<close>

definition js_space :: "code_unit \<Rightarrow> bool" where
  "js_space c = (c \<in> {0x09, 0x0A, 0x0B, 0x0C, 0x0D, 0x20, 0xA0, 0x1680, 0x2028, 0x2029,
                       0x202F, 0x205F, 0x3000, 0xFEFF} \<or> (0x2000 \<le> c \<and> c \<le> 0x200A))"

definition trim :: "jsstring \<Rightarrow> jsstring" where
  "trim s = rev (dropWhile js_space (rev (dropWhile js_space s)))"


section \<open>JSON.parse\<close>

text \<open>
  \<open>JSON.parse\<close> belongs to the language, not to the repository. It is modelled by the JSON
  grammar (ECMA-404): a lexer into tokens and a pushdown recogniser that builds the value.
  A text that is not JSON throws \<open>SyntaxError\<close>.
\<close>

datatype token =
    TLBrace | TRBrace | TLBracket | TRBracket | TColon | TComma
  | TString jsstring
  | TNumber bool nat int
  | TTrue | TFalse | TNull

definition json_ws :: "code_unit \<Rightarrow> bool" where
  "json_ws c = (c = 0x20 \<or> c = 0x09 \<or> c = 0x0A \<or> c = 0x0D)"

definition is_digit :: "code_unit \<Rightarrow> bool" where
  "is_digit c = (0x30 \<le> c \<and> c \<le> 0x39)"

definition digit_val :: "code_unit \<Rightarrow> nat" where
  "digit_val c = unat c - 48"

definition digits_val :: "jsstring \<Rightarrow> nat" where
  "digits_val ds = foldl (\<lambda>n d. 10 * n + digit_val d) 0 ds"

definition hex_val :: "code_unit \<Rightarrow> nat option" where
  "hex_val c =
     (if 0x30 \<le> c \<and> c \<le> 0x39 then Some (unat c - 48)
      else if 0x41 \<le> c \<and> c \<le> 0x46 then Some (unat c - 55)
      else if 0x61 \<le> c \<and> c \<le> 0x66 then Some (unat c - 87)
      else None)"

text \<open>The single-character escapes after a backslash.\<close>

definition escape :: "code_unit \<Rightarrow> code_unit option" where
  "escape e =
     (if e = cu CHR ''\"'' then Some 0x22
      else if e = 0x5C then Some 0x5C
      else if e = cu CHR ''/'' then Some 0x2F
      else if e = cu CHR ''b'' then Some 0x08
      else if e = cu CHR ''f'' then Some 0x0C
      else if e = cu CHR ''n'' then Some 0x0A
      else if e = cu CHR ''r'' then Some 0x0D
      else if e = cu CHR ''t'' then Some 0x09
      else None)"

definition cons_fst :: "'a \<Rightarrow> ('a list \<times> 'b) option \<Rightarrow> ('a list \<times> 'b) option" where
  "cons_fst c r = map_option (\<lambda>(str, rest). (c # str, rest)) r"

text \<open>
  The characters of a string literal after its opening quote: the decoded string and the
  text after the closing quote.
\<close>

fun lex_string :: "jsstring \<Rightarrow> (jsstring \<times> jsstring) option" where
  "lex_string [] = None"
| "lex_string (c # cs) =
     (if c = 0x22 then Some ([], cs)
      else if c = 0x5C then
        (case cs of
           [] \<Rightarrow> None
         | e # cs' \<Rightarrow>
             if e = cu CHR ''u'' then
               (case cs' of
                  h1 # h2 # h3 # h4 # cs'' \<Rightarrow>
                    (case (hex_val h1, hex_val h2, hex_val h3, hex_val h4) of
                       (Some a, Some b, Some c, Some d) \<Rightarrow>
                         cons_fst (of_nat (((a * 16 + b) * 16 + c) * 16 + d)) (lex_string cs'')
                     | _ \<Rightarrow> None)
                | _ \<Rightarrow> None)
             else
               (case escape e of
                  None \<Rightarrow> None
                | Some d \<Rightarrow> cons_fst d (lex_string cs')))
      else if c < 0x20 then None
      else cons_fst c (lex_string cs))"

text \<open>
  A number: \<open>-? (0 | [1-9][0-9]*) (. [0-9]+)? ([eE] [+-]? [0-9]+)?\<close>, with the text after it.
\<close>

fun lex_sign :: "jsstring \<Rightarrow> bool \<times> jsstring" where
  "lex_sign [] = (False, [])"
| "lex_sign (c # cs) = (if c = cu CHR ''-'' then (True, cs) else (False, c # cs))"

fun lex_int :: "jsstring \<Rightarrow> (jsstring \<times> jsstring) option" where
  "lex_int [] = None"
| "lex_int (c # cs) =
     (if c = cu CHR ''0'' then Some ([c], cs)
      else if is_digit c then Some (c # takeWhile is_digit cs, dropWhile is_digit cs)
      else None)"

fun lex_frac :: "jsstring \<Rightarrow> (jsstring \<times> jsstring) option" where
  "lex_frac [] = Some ([], [])"
| "lex_frac (c # cs) =
     (if c = cu CHR ''.'' then
        (if takeWhile is_digit cs = [] then None
         else Some (takeWhile is_digit cs, dropWhile is_digit cs))
      else Some ([], c # cs))"

fun lex_exp_sign :: "jsstring \<Rightarrow> bool \<times> jsstring" where
  "lex_exp_sign [] = (False, [])"
| "lex_exp_sign (c # cs) =
     (if c = cu CHR ''-'' then (True, cs)
      else if c = cu CHR ''+'' then (False, cs)
      else (False, c # cs))"

fun lex_exp :: "jsstring \<Rightarrow> (int \<times> jsstring) option" where
  "lex_exp [] = Some (0, [])"
| "lex_exp (c # cs) =
     (if c = cu CHR ''e'' \<or> c = cu CHR ''E'' then
        (case lex_exp_sign cs of
           (eneg, r) \<Rightarrow>
             if takeWhile is_digit r = [] then None
             else Some (if eneg then - int (digits_val (takeWhile is_digit r))
                        else int (digits_val (takeWhile is_digit r)),
                        dropWhile is_digit r))
      else Some (0, c # cs))"

definition lex_number :: "jsstring \<Rightarrow> ((bool \<times> nat \<times> int) \<times> jsstring) option" where
  "lex_number cs =
     (case lex_sign cs of
        (neg, r0) \<Rightarrow>
          (case lex_int r0 of
             None \<Rightarrow> None
           | Some (ip, r1) \<Rightarrow>
               (case lex_frac r1 of
                  None \<Rightarrow> None
                | Some (fp, r2) \<Rightarrow>
                    (case lex_exp r2 of
                       None \<Rightarrow> None
                     | Some (ex, r3) \<Rightarrow>
                         Some ((neg, digits_val (ip @ fp), ex - int (length fp)), r3)))))"

definition cons_tok :: "token \<Rightarrow> token list option \<Rightarrow> token list option" where
  "cons_tok t r = map_option ((#) t) r"

lemma lex_string_shorter:
  "lex_string cs = Some (str, rest) \<Longrightarrow> length rest < length cs"
proof (induction cs arbitrary: str rest rule: lex_string.induct)
  case 1
  then show ?case by simp
next
  case (2 c cs)
  then show ?case
    by (fastforce simp: cons_fst_def less_Suc_eq
          split: if_splits list.splits option.splits prod.splits)
qed

lemma lex_sign_length: "lex_sign cs = (neg, r) \<Longrightarrow> length r \<le> length cs"
  by (cases cs) (auto split: if_splits)

lemma lex_int_shorter: "lex_int cs = Some (ip, r) \<Longrightarrow> length r < length cs"
  by (cases cs) (auto split: if_splits simp: less_Suc_eq_le length_dropWhile_le)

lemma lex_frac_length: "lex_frac cs = Some (fp, r) \<Longrightarrow> length r \<le> length cs"
  by (cases cs) (auto split: if_splits simp: le_SucI length_dropWhile_le)

lemma lex_exp_sign_length: "lex_exp_sign cs = (eneg, r) \<Longrightarrow> length r \<le> length cs"
  by (cases cs) (auto split: if_splits)

lemma lex_exp_length:
  assumes a: "lex_exp cs = Some (ex, r)"
  shows "length r \<le> length cs"
proof (cases cs)
  case Nil
  with a show ?thesis by simp
next
  case (Cons c cs')
  show ?thesis
  proof (cases "c = cu CHR ''e'' \<or> c = cu CHR ''E''")
    case False
    with a Cons show ?thesis by auto
  next
    case True
    obtain eneg r' where s: "lex_exp_sign cs' = (eneg, r')"
      by (cases "lex_exp_sign cs'")
    from a Cons True s have "r = dropWhile is_digit r'"
      by (auto split: if_splits)
    moreover have "length (dropWhile is_digit r') \<le> length r'"
      by (rule length_dropWhile_le)
    moreover have "length r' \<le> length cs'"
      using s by (rule lex_exp_sign_length)
    ultimately show ?thesis using Cons by simp
  qed
qed

lemma lex_number_shorter:
  assumes "lex_number cs = Some (n, rest)"
  shows "length rest < length cs"
proof -
  obtain neg r0 where s: "lex_sign cs = (neg, r0)"
    by (cases "lex_sign cs")
  from assms s obtain ip r1 where i: "lex_int r0 = Some (ip, r1)"
    by (auto simp: lex_number_def split: option.splits)
  from assms s i obtain fp r2 where f: "lex_frac r1 = Some (fp, r2)"
    by (auto simp: lex_number_def split: option.splits)
  from assms s i f obtain ex where e: "lex_exp r2 = Some (ex, rest)"
    by (auto simp: lex_number_def split: option.splits)
  have "length rest \<le> length r2" using e by (rule lex_exp_length)
  also have "\<dots> \<le> length r1" using f by (rule lex_frac_length)
  also have "\<dots> < length r0" using i by (rule lex_int_shorter)
  also have "\<dots> \<le> length cs" using s by (rule lex_sign_length)
  finally show ?thesis .
qed

function lex :: "jsstring \<Rightarrow> token list option" where
  "lex [] = Some []"
| "lex (c # cs) =
     (if json_ws c then lex cs
      else if c = cu CHR ''{'' then cons_tok TLBrace (lex cs)
      else if c = cu CHR ''}'' then cons_tok TRBrace (lex cs)
      else if c = cu CHR ''['' then cons_tok TLBracket (lex cs)
      else if c = cu CHR '']'' then cons_tok TRBracket (lex cs)
      else if c = cu CHR '':'' then cons_tok TColon (lex cs)
      else if c = cu CHR '','' then cons_tok TComma (lex cs)
      else if c = 0x22 then
        (case lex_string cs of
           None \<Rightarrow> None
         | Some (str, rest) \<Rightarrow> cons_tok (TString str) (lex rest))
      else if c = cu CHR ''-'' \<or> is_digit c then
        (case lex_number (c # cs) of
           None \<Rightarrow> None
         | Some ((neg, m, e), rest) \<Rightarrow> cons_tok (TNumber neg m e) (lex rest))
      else if take 4 (c # cs) = utf16 ''true'' then cons_tok TTrue (lex (drop 3 cs))
      else if take 5 (c # cs) = utf16 ''false'' then cons_tok TFalse (lex (drop 4 cs))
      else if take 4 (c # cs) = utf16 ''null'' then cons_tok TNull (lex (drop 3 cs))
      else None)"
  by pat_completeness auto
termination
  by (relation "measure length")
     (auto dest: lex_string_shorter lex_number_shorter simp: less_Suc_eq_le)

text \<open>
  The value under construction. A frame is an enclosing array with the elements read so
  far, or an enclosing object with the members read so far and the key whose value is being
  read. Defining a key a second time replaces its value.
\<close>

fun put_member :: "(jsstring \<times> jsval) list \<Rightarrow> jsstring \<Rightarrow> jsval \<Rightarrow> (jsstring \<times> jsval) list" where
  "put_member [] k v = [(k, v)]"
| "put_member ((k', v') # ms) k v =
     (if k' = k then (k', v) # ms else (k', v') # put_member ms k v)"

datatype frame = FArr "jsval list" | FObj "(jsstring \<times> jsval) list" jsstring

datatype mode =
    MValue
  | MArrFirst
  | MObjFirst
  | MKey "(jsstring \<times> jsval) list"
  | MColon "(jsstring \<times> jsval) list" jsstring
  | MAfter jsval

definition shift_value :: "token \<Rightarrow> frame list \<Rightarrow> (mode \<times> frame list) option" where
  "shift_value t st =
     (case t of
        TLBrace \<Rightarrow> Some (MObjFirst, st)
      | TLBracket \<Rightarrow> Some (MArrFirst, st)
      | TString s \<Rightarrow> Some (MAfter (Str s), st)
      | TNumber neg m e \<Rightarrow> Some (MAfter (Num neg m e), st)
      | TTrue \<Rightarrow> Some (MAfter (Bool True), st)
      | TFalse \<Rightarrow> Some (MAfter (Bool False), st)
      | TNull \<Rightarrow> Some (MAfter Null, st)
      | _ \<Rightarrow> None)"

fun step :: "mode \<Rightarrow> frame list \<Rightarrow> token \<Rightarrow> (mode \<times> frame list) option" where
  "step MValue st t = shift_value t st"
| "step MArrFirst st t =
     (if t = TRBracket then Some (MAfter (Arr []), st) else shift_value t (FArr [] # st))"
| "step MObjFirst st t =
     (case t of
        TRBrace \<Rightarrow> Some (MAfter (Obj []), st)
      | TString k \<Rightarrow> Some (MColon [] k, st)
      | _ \<Rightarrow> None)"
| "step (MKey ms) st t = (case t of TString k \<Rightarrow> Some (MColon ms k, st) | _ \<Rightarrow> None)"
| "step (MColon ms k) st t = (if t = TColon then Some (MValue, FObj ms k # st) else None)"
| "step (MAfter v) [] t = None"
| "step (MAfter v) (FArr xs # st) t =
     (case t of
        TComma \<Rightarrow> Some (MValue, FArr (xs @ [v]) # st)
      | TRBracket \<Rightarrow> Some (MAfter (Arr (xs @ [v])), st)
      | _ \<Rightarrow> None)"
| "step (MAfter v) (FObj ms k # st) t =
     (case t of
        TComma \<Rightarrow> Some (MKey (put_member ms k v), st)
      | TRBrace \<Rightarrow> Some (MAfter (Obj (put_member ms k v)), st)
      | _ \<Rightarrow> None)"

fun run :: "mode \<Rightarrow> frame list \<Rightarrow> token list \<Rightarrow> jsval option" where
  "run m st [] = (case (m, st) of (MAfter v, []) \<Rightarrow> Some v | _ \<Rightarrow> None)"
| "run m st (t # ts) =
     (case step m st t of None \<Rightarrow> None | Some (m', st') \<Rightarrow> run m' st' ts)"

definition JSON_parse :: "jsstring \<Rightarrow> exn + jsval" where
  "JSON_parse s =
     (case lex s of
        None \<Rightarrow> Inl SyntaxError
      | Some ts \<Rightarrow> (case run MValue [] ts of None \<Rightarrow> Inl SyntaxError | Some v \<Rightarrow> Inr v))"


section \<open>extractJsonFromText\<close>

text \<open>
  \<^verbatim>\<open>const starts = [];
  for (let i = 0; i < s.length; i++) if (s[i] === '{') starts.push(i);\<close>
\<close>

function collect_starts :: "jsstring \<Rightarrow> nat \<Rightarrow> nat list \<Rightarrow> nat list" where
  "collect_starts s i starts =
     (if i < length s
      then collect_starts s (i + 1) (if s ! i = cu CHR ''{'' then starts @ [i] else starts)
      else starts)"
  by pat_completeness auto
termination
  by (relation "measure (\<lambda>(s, i, starts). length s - i)") auto

declare collect_starts.simps [simp del]

text \<open>
  The inner loop over \<open>i\<close> from \<open>start\<close>, with the running \<open>depth\<close>. \<open>Some v\<close>: the function
  returns \<open>v\<close>. \<open>None\<close>: the loop is left, by \<open>break\<close> after a \<open>SyntaxError\<close> that was caught or
  at the end of the text, and the next start is tried.
\<close>

function scan_from :: "jsstring \<Rightarrow> nat \<Rightarrow> nat \<Rightarrow> int \<Rightarrow> jsval option" where
  "scan_from s start i depth =
     (if i < length s then
        (if s ! i = cu CHR ''{'' then scan_from s start (i + 1) (depth + 1)
         else if s ! i = cu CHR ''}'' then
           (if depth - 1 = 0 then
              (case JSON_parse (slice s start (i + 1)) of
                 Inr v \<Rightarrow> Some v
               | Inl e \<Rightarrow> None)
            else scan_from s start (i + 1) (depth - 1))
         else scan_from s start (i + 1) depth)
      else None)"
  by pat_completeness auto
termination
  by (relation "measure (\<lambda>(s, start, i, depth). length s - i)") auto

declare scan_from.simps [simp del]

fun try_starts :: "jsstring \<Rightarrow> nat list \<Rightarrow> jsval" where
  "try_starts s [] = Null"
| "try_starts s (start # starts) =
     (case scan_from s start start 0 of
        Some v \<Rightarrow> v
      | None \<Rightarrow> try_starts s starts)"

definition extractJsonFromText :: "jsval \<Rightarrow> exn + jsval" where
  "extractJsonFromText s =
     (if \<not> to_boolean s \<or> typeof s \<noteq> ''string'' then Inr Null
      else (case s of
              Str t \<Rightarrow> Inr (try_starts t (collect_starts t 0 []))
            | _ \<Rightarrow> Inr Null))"


section \<open>The fence pattern\<close>

text \<open>
  \<^verbatim>\<open>/```(?:json|python|py|txt)?\n([\s\S]*?)```/gi\<close>, matched by backtracking. With the flag
  \<open>i\<close> and without \<open>u\<close> two code units match when their upper-case forms agree, and no code
  unit beyond ASCII has an ASCII upper-case form; the letters of the pattern are ASCII, so
  only ASCII letters need folding.
\<close>

definition canonicalize :: "code_unit \<Rightarrow> code_unit" where
  "canonicalize c = (if 0x61 \<le> c \<and> c \<le> 0x7A then c - 0x20 else c)"

fun strip_ci :: "jsstring \<Rightarrow> jsstring \<Rightarrow> jsstring option" where
  "strip_ci [] s = Some s"
| "strip_ci (p # ps) [] = None"
| "strip_ci (p # ps) (c # cs) =
     (if canonicalize c = canonicalize p then strip_ci ps cs else None)"

definition fence :: jsstring where
  "fence = [0x60, 0x60, 0x60]"

text \<open>\<^verbatim>\<open>([\s\S]*?)```\<close>: the shortest text up to a closing fence, and the text after it.\<close>

fun lazy_until_fence :: "jsstring \<Rightarrow> (jsstring \<times> jsstring) option" where
  "lazy_until_fence [] = None"
| "lazy_until_fence (c # cs) =
     (if take 3 (c # cs) = fence then Some ([], drop 2 cs)
      else cons_fst c (lazy_until_fence cs))"

definition fence_labels :: "string list" where
  "fence_labels = [''json'', ''python'', ''py'', ''txt'']"

text \<open>After the opening fence: one alternative of the label, a line feed, the content.\<close>

definition after_label :: "jsstring \<Rightarrow> string \<Rightarrow> (jsstring \<times> jsstring) option" where
  "after_label r lab =
     (case strip_ci (utf16 lab) r of
        None \<Rightarrow> None
      | Some r1 \<Rightarrow>
          (case r1 of
             [] \<Rightarrow> None
           | c # r2 \<Rightarrow> if c = 0x0A then lazy_until_fence r2 else None))"

fun first_match :: "('a \<Rightarrow> 'b option) \<Rightarrow> 'a list \<Rightarrow> 'b option" where
  "first_match f [] = None"
| "first_match f (x # xs) = (case f x of Some y \<Rightarrow> Some y | None \<Rightarrow> first_match f xs)"

text \<open>
  A match that starts at the head of the text: the label alternatives in the order of the
  pattern, then the empty label of the \<open>?\<close>.
\<close>

definition match_here :: "jsstring \<Rightarrow> (jsstring \<times> jsstring) option" where
  "match_here s =
     (if take 3 s = fence then first_match (after_label (drop 3 s)) (fence_labels @ [[]])
      else None)"

text \<open>The leftmost match in the text: group 1 and the text after the match.\<close>

fun search_fence :: "jsstring \<Rightarrow> (jsstring \<times> jsstring) option" where
  "search_fence [] = None"
| "search_fence (c # cs) =
     (case match_here (c # cs) of
        Some m \<Rightarrow> Some m
      | None \<Rightarrow> search_fence cs)"

text \<open>
  \<open>fenceRegex.exec(s)\<close> with the flag \<open>g\<close>: the search starts at \<open>lastIndex\<close>; a match sets
  \<open>lastIndex\<close> to its end, no match resets it to \<open>0\<close>. The result is group 1 and the new
  \<open>lastIndex\<close>.
\<close>

definition fenceRegex_exec :: "jsstring \<Rightarrow> nat \<Rightarrow> jsstring option \<times> nat" where
  "fenceRegex_exec s lastIndex =
     (case search_fence (drop lastIndex s) of
        None \<Rightarrow> (None, 0)
      | Some (m1, rest) \<Rightarrow> (Some m1, length s - length rest))"


section \<open>extractJsonFromFences\<close>

lemma lazy_until_fence_shorter:
  "lazy_until_fence s = Some (m1, rest) \<Longrightarrow> length rest < length s"
proof (induction s arbitrary: m1)
  case Nil
  then show ?case by simp
next
  case (Cons c cs)
  show ?case
  proof (cases "take 3 (c # cs) = fence")
    case True
    with Cons.prems show ?thesis by auto
  next
    case False
    with Cons.prems obtain m' where "lazy_until_fence cs = Some (m', rest)"
      by (auto simp: cons_fst_def)
    then have "length rest < length cs" by (rule Cons.IH)
    then show ?thesis by simp
  qed
qed

lemma strip_ci_length: "strip_ci ps s = Some r \<Longrightarrow> length r \<le> length s"
  by (induction ps s rule: strip_ci.induct) (auto split: if_splits simp: le_SucI)

lemma after_label_shorter:
  assumes "after_label r lab = Some (m1, rest)"
  shows "length rest < length r"
proof -
  from assms obtain r1 r2 where s: "strip_ci (utf16 lab) r = Some r1"
    and r1: "r1 = 0x0A # r2" and l: "lazy_until_fence r2 = Some (m1, rest)"
    by (auto simp: after_label_def split: option.splits list.splits if_splits)
  have "length rest < length r2" using l by (rule lazy_until_fence_shorter)
  moreover have "length r1 \<le> length r" using s by (rule strip_ci_length)
  ultimately show ?thesis using r1 by simp
qed

lemma first_match_Some:
  "first_match f xs = Some y \<Longrightarrow> \<exists>x \<in> set xs. f x = Some y"
  by (induction xs) (auto split: option.splits)

lemma match_here_shorter:
  assumes "match_here s = Some (m1, rest)"
  shows "length rest < length s"
proof -
  from assms obtain lab where "after_label (drop 3 s) lab = Some (m1, rest)"
    by (auto simp: match_here_def split: if_splits dest: first_match_Some)
  then have "length rest < length (drop 3 s)" by (rule after_label_shorter)
  then show ?thesis by simp
qed

lemma search_fence_shorter:
  "search_fence s = Some (m1, rest) \<Longrightarrow> length rest < length s"
proof (induction s)
  case Nil
  then show ?case by simp
next
  case (Cons c cs)
  show ?case
  proof (cases "match_here (c # cs)")
    case None
    with Cons.prems have "search_fence cs = Some (m1, rest)" by simp
    then have "length rest < length cs" by (rule Cons.IH)
    then show ?thesis by simp
  next
    case (Some m)
    with Cons.prems have "match_here (c # cs) = Some (m1, rest)" by simp
    then show ?thesis by (rule match_here_shorter)
  qed
qed

lemma fenceRegex_exec_advances:
  assumes "fenceRegex_exec s lastIndex = (Some m1, lastIndex')"
  shows "length s - lastIndex' < length s - lastIndex"
proof -
  from assms obtain rest where f: "search_fence (drop lastIndex s) = Some (m1, rest)"
    and l: "lastIndex' = length s - length rest"
    by (auto simp: fenceRegex_exec_def split: option.splits)
  have "length rest < length (drop lastIndex s)" using f by (rule search_fence_shorter)
  with l show ?thesis by simp
qed

text \<open>
  The \<open>while\<close> loop, with the \<open>lastIndex\<close> of the pattern as its state. An exception of
  \<open>JSON.parse\<close> is caught; one of \<open>extractJsonFromText\<close>, called in the handler, would
  leave the function.
\<close>

function fences_loop :: "jsstring \<Rightarrow> nat \<Rightarrow> exn + jsval" where
  "fences_loop s lastIndex =
     (case fenceRegex_exec s lastIndex of
        (None, _) \<Rightarrow> Inr Null
      | (Some m1, lastIndex') \<Rightarrow>
          (case JSON_parse (trim m1) of
             Inr v \<Rightarrow> Inr v
           | Inl e \<Rightarrow>
               (case extractJsonFromText (Str (trim m1)) of
                  Inl e' \<Rightarrow> Inl e'
                | Inr parsed \<Rightarrow>
                    if to_boolean parsed then Inr parsed else fences_loop s lastIndex')))"
  by pat_completeness auto
termination
  by (relation "measure (\<lambda>(s, lastIndex). length s - lastIndex)")
     (auto dest: fenceRegex_exec_advances [OF sym])

declare fences_loop.simps [simp del]

text \<open>The pattern literal makes a new object at every call, so the loop starts at \<open>0\<close>.\<close>

definition extractJsonFromFences :: "jsval \<Rightarrow> exn + jsval" where
  "extractJsonFromFences s =
     (if \<not> to_boolean s \<or> typeof s \<noteq> ''string'' then Inr Null
      else (case s of
              Str t \<Rightarrow> fences_loop t 0
            | _ \<Rightarrow> Inr Null))"


section \<open>The caller in analyzeCode\<close>

text \<open>
  What \<open>analyzeCode\<close> does with \<open>jobData.result\<close>: the \<open>try\<close> block hands a value to
  \<open>setAnalysisResult\<close> or throws, and the handler hands over the fallback.
\<close>

definition fallbackResult :: "jsval \<Rightarrow> jsval" where
  "fallbackResult analysisContent =
     Obj [(utf16 ''errors'', Arr []),
          (utf16 ''warnings'', Arr []),
          (utf16 ''suggestions'',
             Arr [Obj [(utf16 ''line'', Num False 0 0),
                       (utf16 ''code'', Str (utf16 ''Analysis Result'')),
                       (utf16 ''message'', analysisContent),
                       (utf16 ''severity'', Str (utf16 ''info''))]]),
          (utf16 ''summary'',
             Obj [(utf16 ''errorCount'', Num False 0 0),
                  (utf16 ''warningCount'', Num False 0 0),
                  (utf16 ''suggestionCount'', Num False 1 0)])]"

definition extractAnalysis :: "jsval \<Rightarrow> exn + jsval" where
  "extractAnalysis analysisContent =
     (if typeof analysisContent = ''object'' then Inr analysisContent
      else if typeof analysisContent = ''string'' then
        (case extractJsonFromFences analysisContent of
           Inl e \<Rightarrow> Inl e
         | Inr fromFences \<Rightarrow>
             if to_boolean fromFences then Inr fromFences
             else
               (case extractJsonFromText analysisContent of
                  Inl e \<Rightarrow> Inl e
                | Inr fromBraces \<Rightarrow>
                    if to_boolean fromBraces then Inr fromBraces
                    else Inl (Error ''No JSON found in response'')))
      else Inl (Error ''Unexpected analysis response format''))"

definition analysisResult :: "jsval \<Rightarrow> jsval" where
  "analysisResult analysisContent =
     (case extractAnalysis analysisContent of
        Inr r \<Rightarrow> r
      | Inl jsonError \<Rightarrow> fallbackResult analysisContent)"


section \<open>The extraction as the specification words it\<close>

text \<open>The indices of \<open>{\<close>, in increasing order.\<close>

definition brace_starts :: "jsstring \<Rightarrow> nat list" where
  "brace_starts s = filter (\<lambda>i. s ! i = cu CHR ''{'') [0..<length s]"

text \<open>The depth of a text: its opening braces minus its closing braces.\<close>

definition depth_of :: "jsstring \<Rightarrow> int" where
  "depth_of t =
     int (length (filter (\<lambda>c. c = cu CHR ''{'') t)) - int (length (filter (\<lambda>c. c = cu CHR ''}'') t))"

text \<open>
  The index of the close that matches \<open>start\<close>: the first at which the depth of the text
  from \<open>start\<close> is back at zero. The candidate is the text from \<open>start\<close> through it.
\<close>

definition matching_close :: "jsstring \<Rightarrow> nat \<Rightarrow> nat option" where
  "matching_close s start =
     find (\<lambda>i. depth_of (slice s start (i + 1)) = 0) [start..<length s]"

definition candidate :: "jsstring \<Rightarrow> nat \<Rightarrow> jsstring option" where
  "candidate s start = map_option (\<lambda>i. slice s start (i + 1)) (matching_close s start)"

definition parse_opt :: "jsstring \<Rightarrow> jsval option" where
  "parse_opt c = (case JSON_parse c of Inr v \<Rightarrow> Some v | Inl e \<Rightarrow> None)"

definition candidate_parse :: "jsstring \<Rightarrow> nat \<Rightarrow> jsval option" where
  "candidate_parse s start =
     (case candidate s start of None \<Rightarrow> None | Some c \<Rightarrow> parse_opt c)"

definition first_parsed :: "jsstring \<Rightarrow> jsval" where
  "first_parsed s =
     (case first_match (candidate_parse s) (brace_starts s) of
        None \<Rightarrow> Null
      | Some v \<Rightarrow> v)"

text \<open>
  The contents of the fenced blocks of a text, in order of appearance: each search resumes
  after the closing fence of the block before.
\<close>

function fence_blocks :: "jsstring \<Rightarrow> jsstring list" where
  "fence_blocks s =
     (case search_fence s of
        None \<Rightarrow> []
      | Some (m1, rest) \<Rightarrow> m1 # fence_blocks rest)"
  by pat_completeness auto
termination
  by (relation "measure length") (auto dest: search_fence_shorter)

declare fence_blocks.simps [simp del]

text \<open>
  What one block yields: the parse of its trimmed content when that is JSON, whatever the
  value; otherwise what the balanced-brace scan of the trimmed content finds, if anything.
\<close>

definition recover_block :: "jsstring \<Rightarrow> jsval option" where
  "recover_block m1 =
     (case JSON_parse (trim m1) of
        Inr v \<Rightarrow> Some v
      | Inl e \<Rightarrow>
          if to_boolean (first_parsed (trim m1)) then Some (first_parsed (trim m1)) else None)"

definition first_recovered :: "jsstring \<Rightarrow> jsval" where
  "first_recovered s =
     (case first_match recover_block (fence_blocks s) of
        None \<Rightarrow> Null
      | Some v \<Rightarrow> v)"

text \<open>The first matching close at or after \<open>i\<close>, and the parse of the candidate it ends.\<close>

definition close_parse :: "jsstring \<Rightarrow> nat \<Rightarrow> nat \<Rightarrow> jsval option" where
  "close_parse s start i =
     (case find (\<lambda>j. depth_of (slice s start (j + 1)) = 0) [i..<length s] of
        None \<Rightarrow> None
      | Some j \<Rightarrow> parse_opt (slice s start (j + 1)))"


section \<open>The pattern object in a heap\<close>

text \<open>
  The only object the extraction mutates is the pattern, whose \<open>lastIndex\<close> the calls of
  \<open>exec\<close> read and write. Here the pattern objects live in a heap, the \<open>lastIndex\<close> of each
  by address. \<open>extractJsonFromFences\<close> evaluates the pattern literal, which allocates a new
  object, and runs its loop on that object.
\<close>

type_synonym heap = "nat list"

function fences_loop_heap :: "jsstring \<Rightarrow> nat \<Rightarrow> heap \<Rightarrow> (exn + jsval) \<times> heap" where
  "fences_loop_heap s re h =
     (if re < length h then
        (case fenceRegex_exec s (h ! re) of
           (None, lastIndex') \<Rightarrow> (Inr Null, h[re := lastIndex'])
         | (Some m1, lastIndex') \<Rightarrow>
             (case JSON_parse (trim m1) of
                Inr v \<Rightarrow> (Inr v, h[re := lastIndex'])
              | Inl e \<Rightarrow>
                  (case extractJsonFromText (Str (trim m1)) of
                     Inl e' \<Rightarrow> (Inl e', h[re := lastIndex'])
                   | Inr parsed \<Rightarrow>
                       if to_boolean parsed then (Inr parsed, h[re := lastIndex'])
                       else fences_loop_heap s re (h[re := lastIndex']))))
      else (Inl (Error ''no such object''), h))"
  by pat_completeness auto
termination
  by (relation "measure (\<lambda>(s, re, h). length s - h ! re)")
     (auto dest: fenceRegex_exec_advances [OF sym])

declare fences_loop_heap.simps [simp del]

definition extractJsonFromFences_heap :: "jsval \<Rightarrow> heap \<Rightarrow> (exn + jsval) \<times> heap" where
  "extractJsonFromFences_heap s h =
     (if \<not> to_boolean s \<or> typeof s \<noteq> ''string'' then (Inr Null, h)
      else (case s of
              Str t \<Rightarrow> fences_loop_heap t (length h) (h @ [0])
            | _ \<Rightarrow> (Inr Null, h)))"


section \<open>Example texts\<close>


definition brace_in_string_text :: jsstring where
  "brace_in_string_text = utf16 ''{\"a\":\"}\"}''"

definition three_blocks_text :: jsstring where
  "three_blocks_text =
     utf16 ''```\<newline>nope\<newline>``` ```txt\<newline>see {\"x\":1}\<newline>``` ```json\<newline>{\"z\":3}\<newline>```''"











section \<open>Properties of extractJsonFromText\<close>

lemma collect_starts_eq:
  "collect_starts s i acc = acc @ filter (\<lambda>j. s ! j = cu CHR ''{'') [i..<length s]"
proof (induction s i acc rule: collect_starts.induct)
  case (1 s i starts)
  show ?case
  proof (cases "i < length s")
    case True
    then have "[i..<length s] = i # [Suc i..<length s]" by (rule upt_conv_Cons)
    with True "1.IH" show ?thesis by (subst collect_starts.simps) simp
  next
    case False
    then show ?thesis by (subst collect_starts.simps) simp
  qed
qed

lemma collect_starts_brace_starts: "collect_starts s 0 [] = brace_starts s"
  by (simp add: collect_starts_eq brace_starts_def)

lemma depth_of_snoc:
  "depth_of (t @ [c]) =
     depth_of t + (if c = cu CHR ''{'' then 1 else if c = cu CHR ''}'' then - 1 else 0)"
  by (simp add: depth_of_def)

lemma slice_Suc:
  "start \<le> i \<Longrightarrow> i < length s \<Longrightarrow> slice s start (i + 1) = slice s start i @ [s ! i]"
  by (simp add: slice_def Suc_diff_le take_Suc_conv_app_nth)

text \<open>
  The inner loop stops at the first index where the depth is back at zero. The depth stays
  positive until then, which is why the test after a decrement alone finds that index.
\<close>

lemma scan_from_close:
  assumes "start \<le> i" and "depth = depth_of (slice s start i)"
    and "0 \<le> depth" and "depth = 0 \<Longrightarrow> i < length s \<Longrightarrow> s ! i = cu CHR ''{''"
  shows "scan_from s start i depth = close_parse s start i"
  using assms
proof (induction s start i depth rule: scan_from.induct)
  case (1 s start i depth)
  show ?case
  proof (cases "i < length s")
    case False
    then show ?thesis
      by (subst scan_from.simps) (simp add: close_parse_def)
  next
    case True
    then have upt: "[i..<length s] = i # [Suc i..<length s]" by (rule upt_conv_Cons)
    have sl: "slice s start (i + 1) = slice s start i @ [s ! i]"
      using "1.prems"(1) True by (rule slice_Suc)
    have d: "depth_of (slice s start (i + 1)) =
      depth + (if s ! i = cu CHR ''{'' then 1 else if s ! i = cu CHR ''}'' then - 1 else 0)"
      unfolding sl depth_of_snoc using "1.prems"(2) by simp
    have unf: "close_parse s start i =
       (if depth_of (slice s start (i + 1)) = 0 then parse_opt (slice s start (i + 1))
        else close_parse s start (i + 1))"
      by (simp add: close_parse_def upt)
    consider (lb) "s ! i = cu CHR ''{''"
      | (rb) "s ! i \<noteq> cu CHR ''{''" "s ! i = cu CHR ''}''"
      | (other) "s ! i \<noteq> cu CHR ''{''" "s ! i \<noteq> cu CHR ''}''"
      by blast
    then show ?thesis
    proof cases
      case lb
      have "scan_from s start (i + 1) (depth + 1) = close_parse s start (i + 1)"
        using True lb "1.prems" d by (intro "1.IH"(1)) auto
      then show ?thesis
        using True lb d "1.prems"(3) by (subst scan_from.simps) (simp add: unf)
    next
      case rb
      with "1.prems"(4) True have pos: "0 < depth"
        using "1.prems"(3) by (cases "depth = 0") auto
      show ?thesis
      proof (cases "depth - 1 = 0")
        case True
        then show ?thesis
          using \<open>i < length s\<close> rb d
          by (subst scan_from.simps) (simp add: unf parse_opt_def split: sum.splits)
      next
        case False
        have "scan_from s start (i + 1) (depth - 1) = close_parse s start (i + 1)"
          using \<open>i < length s\<close> rb False "1.prems" d pos by (intro "1.IH"(2)) auto
        then show ?thesis
          using \<open>i < length s\<close> rb d False by (subst scan_from.simps) (simp add: unf)
      qed
    next
      case other
      with "1.prems"(4) True have pos: "0 < depth"
        using "1.prems"(3) by (cases "depth = 0") auto
      have "scan_from s start (i + 1) depth = close_parse s start (i + 1)"
        using True other "1.prems" d pos by (intro "1.IH"(3)) auto
      then show ?thesis
        using True other d pos by (subst scan_from.simps) (simp add: unf)
    qed
  qed
qed

lemma candidate_parse_close: "candidate_parse s start = close_parse s start start"
  by (simp add: candidate_parse_def candidate_def matching_close_def close_parse_def
      split: option.splits)

lemma scan_from_start:
  assumes "start < length s" and "s ! start = cu CHR ''{''"
  shows "scan_from s start start 0 = candidate_parse s start"
proof -
  have "scan_from s start start 0 = close_parse s start start"
    using assms by (intro scan_from_close) (simp_all add: slice_def depth_of_def)
  then show ?thesis by (simp add: candidate_parse_close)
qed

lemma try_starts_first_match:
  assumes "\<And>start. start \<in> set starts \<Longrightarrow> start < length s \<and> s ! start = cu CHR ''{''"
  shows "try_starts s starts =
    (case first_match (candidate_parse s) starts of None \<Rightarrow> Null | Some v \<Rightarrow> v)"
  using assms
proof (induction starts)
  case Nil
  then show ?case by simp
next
  case (Cons start starts)
  have "scan_from s start start 0 = candidate_parse s start"
    using Cons.prems [of start] by (intro scan_from_start) simp_all
  moreover have "try_starts s starts =
    (case first_match (candidate_parse s) starts of None \<Rightarrow> Null | Some v \<Rightarrow> v)"
    using Cons.prems by (intro Cons.IH) simp
  ultimately show ?case by (simp split: option.splits)
qed

lemma extractJsonFromText_Str: "extractJsonFromText (Str s) = Inr (first_parsed s)"
proof (cases "s = []")
  case True
  then show ?thesis
    by (simp add: extractJsonFromText_def first_parsed_def brace_starts_def)
next
  case False
  have "try_starts s (brace_starts s) = first_parsed s"
    unfolding first_parsed_def
    by (rule try_starts_first_match) (simp add: brace_starts_def)
  with False show ?thesis
    by (simp add: extractJsonFromText_def collect_starts_brace_starts)
qed

text \<open>
  Claim C1. For every text, the balanced-brace extraction tries the opening braces in
  increasing order of their index; for each it parses the text from that brace through the
  first close at which the depth is back at zero, and it returns the first parse that
  succeeds. A candidate that does not parse, and a brace that is never closed, are passed
  over. The text \<open>{bad json} then {"ok":true}\<close> yields the object \<open>{ok: true}\<close>.
\<close>

theorem extractJsonFromText_first_parsed:
  "(\<forall>s. extractJsonFromText (Str s) = Inr (first_parsed s)) \<and>
   extractJsonFromText (Str (utf16 ''{bad json} then {\"ok\":true}'')) =
     Inr (Obj [(utf16 ''ok'', Bool True)])"
proof
  show "\<forall>s. extractJsonFromText (Str s) = Inr (first_parsed s)"
    by (simp add: extractJsonFromText_Str)
  show "extractJsonFromText (Str (utf16 ''{bad json} then {\"ok\":true}'')) =
     Inr (Obj [(utf16 ''ok'', Bool True)])"
    by code_simp
qed

theorem extractJsonFromText_first_parsed_witness:
  "candidate (utf16 ''{a}{{}{}'') 0 = Some (utf16 ''{a}'') \<and>
   JSON_parse (utf16 ''{a}'') = Inl SyntaxError \<and>
   candidate (utf16 ''{a}{{}{}'') 3 = None \<and>
   candidate (utf16 ''{a}{{}{}'') 4 = Some (utf16 ''{}'') \<and>
   extractJsonFromText (Str (utf16 ''{a}{{}{}'')) = Inr (Obj [])"
proof -
  have c: "candidate (utf16 ''{a}{{}{}'') 0 = Some (utf16 ''{a}'')"
    "JSON_parse (utf16 ''{a}'') = Inl SyntaxError"
    "candidate (utf16 ''{a}{{}{}'') 3 = None"
    "candidate (utf16 ''{a}{{}{}'') 4 = Some (utf16 ''{}'')"
    by code_simp+
  have f: "first_parsed (utf16 ''{a}{{}{}'') = Obj []"
    by code_simp
  from extractJsonFromText_first_parsed
  have "extractJsonFromText (Str (utf16 ''{a}{{}{}'')) = Inr (first_parsed (utf16 ''{a}{{}{}''))"
    by blast
  with c f show ?thesis by simp
qed


section \<open>Properties of extractJsonFromFences\<close>


lemma lazy_until_fence_split:
  "lazy_until_fence s = Some (m1, rest) \<Longrightarrow> s = m1 @ fence @ rest"
proof (induction s arbitrary: m1)
  case Nil
  then show ?case by simp
next
  case (Cons c cs)
  show ?case
  proof (cases "take 3 (c # cs) = fence")
    case True
    with Cons.prems have m: "m1 = []" and r: "rest = drop 2 cs" by auto
    have "c # cs = take 3 (c # cs) @ drop 3 (c # cs)" by (rule append_take_drop_id [symmetric])
    with True m r show ?thesis by simp
  next
    case False
    with Cons.prems obtain m' where l: "lazy_until_fence cs = Some (m', rest)" and m: "m1 = c # m'"
      by (auto simp: cons_fst_def)
    from l have "cs = m' @ fence @ rest" by (rule Cons.IH)
    with m show ?thesis by simp
  qed
qed

lemma strip_ci_split: "strip_ci ps s = Some r \<Longrightarrow> \<exists>pre. s = pre @ r"
proof (induction ps s rule: strip_ci.induct)
  case (1 s)
  then show ?case by simp
next
  case (2 p ps)
  then show ?case by simp
next
  case (3 p ps c cs)
  then obtain pre where "cs = pre @ r" by (auto split: if_splits)
  then have "c # cs = (c # pre) @ r" by simp
  then show ?case by blast
qed

lemma after_label_split:
  assumes "after_label r lab = Some (m1, rest)"
  shows "\<exists>pre. r = pre @ m1 @ fence @ rest"
proof -
  from assms obtain r1 r2 where s: "strip_ci (utf16 lab) r = Some r1"
    and r1: "r1 = 0x0A # r2" and l: "lazy_until_fence r2 = Some (m1, rest)"
    by (auto simp: after_label_def split: option.splits list.splits if_splits)
  from s obtain pre where "r = pre @ r1" using strip_ci_split by blast
  moreover have "r2 = m1 @ fence @ rest" using l by (rule lazy_until_fence_split)
  ultimately have "r = (pre @ [0x0A]) @ m1 @ fence @ rest" using r1 by simp
  then show ?thesis by blast
qed

lemma match_here_split:
  assumes "match_here s = Some (m1, rest)"
  shows "\<exists>pre. s = pre @ m1 @ fence @ rest"
proof -
  from assms obtain lab where "after_label (drop 3 s) lab = Some (m1, rest)"
    by (auto simp: match_here_def split: if_splits dest: first_match_Some)
  then obtain pre where "drop 3 s = pre @ m1 @ fence @ rest"
    using after_label_split by blast
  then have "s = (take 3 s @ pre) @ m1 @ fence @ rest"
    by (metis append_take_drop_id append.assoc)
  then show ?thesis by blast
qed

lemma search_fence_split:
  "search_fence s = Some (m1, rest) \<Longrightarrow> \<exists>pre. s = pre @ m1 @ fence @ rest"
proof (induction s)
  case Nil
  then show ?case by simp
next
  case (Cons c cs)
  show ?case
  proof (cases "match_here (c # cs)")
    case None
    with Cons.prems have "search_fence cs = Some (m1, rest)" by simp
    then obtain pre where "cs = pre @ m1 @ fence @ rest" using Cons.IH by blast
    then have "c # cs = (c # pre) @ m1 @ fence @ rest" by simp
    then show ?thesis by blast
  next
    case (Some m)
    with Cons.prems have "match_here (c # cs) = Some (m1, rest)" by simp
    then show ?thesis by (rule match_here_split)
  qed
qed

lemma fenceRegex_exec_None:
  "search_fence (drop lastIndex s) = None \<Longrightarrow> fenceRegex_exec s lastIndex = (None, 0)"
  by (simp add: fenceRegex_exec_def)

lemma fenceRegex_exec_Some:
  assumes "search_fence (drop lastIndex s) = Some (m1, rest)"
  shows "\<exists>lastIndex'. fenceRegex_exec s lastIndex = (Some m1, lastIndex') \<and>
           drop lastIndex' s = rest"
proof -
  from assms obtain pre where "drop lastIndex s = pre @ m1 @ fence @ rest"
    using search_fence_split by blast
  then have "s = (take lastIndex s @ pre @ m1 @ fence) @ rest"
    by (metis append_take_drop_id append.assoc)
  then obtain p where s: "s = p @ rest" by blast
  then have "length s - length rest = length p" by simp
  moreover have "drop (length p) s = rest" by (subst s) simp
  ultimately have "drop (length s - length rest) s = rest" by simp
  with assms show ?thesis by (simp add: fenceRegex_exec_def)
qed

lemma recover_block_eq:
  "recover_block m1 =
     (case JSON_parse (trim m1) of
        Inr v \<Rightarrow> Some v
      | Inl e \<Rightarrow>
          (case extractJsonFromText (Str (trim m1)) of
             Inl e' \<Rightarrow> None
           | Inr parsed \<Rightarrow> if to_boolean parsed then Some parsed else None))"
  by (simp add: recover_block_def extractJsonFromText_Str split: sum.splits)

lemma fences_loop_blocks:
  "fences_loop s lastIndex =
     Inr (case first_match recover_block (fence_blocks (drop lastIndex s)) of
            None \<Rightarrow> Null
          | Some v \<Rightarrow> v)"
proof (induction s lastIndex rule: fences_loop.induct)
  case (1 s lastIndex)
  show ?case
  proof (cases "search_fence (drop lastIndex s)")
    case None
    then have "fenceRegex_exec s lastIndex = (None, 0)" by (rule fenceRegex_exec_None)
    moreover have "fence_blocks (drop lastIndex s) = []"
      using None by (subst fence_blocks.simps) simp
    ultimately show ?thesis by (subst fences_loop.simps) simp
  next
    case (Some m)
    obtain m1 rest where m: "m = (m1, rest)" by (cases m)
    with Some obtain lastIndex' where ex: "fenceRegex_exec s lastIndex = (Some m1, lastIndex')"
      and dr: "drop lastIndex' s = rest"
      using fenceRegex_exec_Some by blast
    have bl: "fence_blocks (drop lastIndex s) = m1 # fence_blocks rest"
      using Some m by (subst fence_blocks.simps) simp
    show ?thesis
    proof (cases "recover_block m1")
      case (Some v)
      then show ?thesis
        using ex bl
        by (subst fences_loop.simps)
           (auto simp: recover_block_eq extractJsonFromText_Str split: sum.splits if_splits)
    next
      case None
      then obtain e where p: "JSON_parse (trim m1) = Inl e"
        and f: "\<not> to_boolean (first_parsed (trim m1))"
        by (auto simp: recover_block_def split: sum.splits if_splits)
      have "fences_loop s lastIndex' =
        Inr (case first_match recover_block (fence_blocks (drop lastIndex' s)) of
               None \<Rightarrow> Null | Some v \<Rightarrow> v)"
        using ex p f by (intro "1.IH") (simp_all add: extractJsonFromText_Str)
      then show ?thesis
        using ex bl None p f dr
        by (subst fences_loop.simps) (simp add: extractJsonFromText_Str)
    qed
  qed
qed

lemma extractJsonFromFences_Str: "extractJsonFromFences (Str s) = Inr (first_recovered s)"
proof (cases "s = []")
  case True
  have "fence_blocks [] = []" by (subst fence_blocks.simps) simp
  with True show ?thesis
    by (simp add: extractJsonFromFences_def first_recovered_def)
next
  case False
  then show ?thesis
    by (simp add: extractJsonFromFences_def first_recovered_def fences_loop_blocks)
qed








section \<open>The caller\<close>

lemma extractAnalysis_Str:
  "extractAnalysis (Str s) =
     (if to_boolean (first_recovered s) then Inr (first_recovered s)
      else if to_boolean (first_parsed s) then Inr (first_parsed s)
      else Inl (Error ''No JSON found in response''))"
  by (simp add: extractAnalysis_def extractJsonFromFences_Str extractJsonFromText_Str)

lemma analysisResult_Str:
  "analysisResult (Str s) =
     (if to_boolean (first_recovered s) then first_recovered s
      else if to_boolean (first_parsed s) then first_parsed s
      else fallbackResult (Str s))"
  by (simp add: analysisResult_def extractAnalysis_Str)







section \<open>Texts without an opening brace\<close>












section \<open>Exceptions and the guard\<close>

lemma extractJsonFromText_returns: "\<exists>v. extractJsonFromText x = Inr v"
  by (cases x) (simp_all add: extractJsonFromText_def)

lemma extractJsonFromFences_returns: "\<exists>v. extractJsonFromFences x = Inr v"
proof (cases x)
  case (Str s)
  then show ?thesis by (simp add: extractJsonFromFences_Str)
qed (simp_all add: extractJsonFromFences_def)

text \<open>
  Claim C6. Neither extraction function throws, whatever it is given: the \<open>SyntaxError\<close> of
  a candidate that is not JSON is caught. When no candidate parses, respectively no block
  yields anything, the function returns \<open>null\<close>; and when both return \<open>null\<close> for a text,
  the caller makes the fallback result, which carries the text as its message.
\<close>

theorem extraction_never_throws:
  "(\<forall>x. \<exists>v. extractJsonFromText x = Inr v) \<and>
   (\<forall>x. \<exists>v. extractJsonFromFences x = Inr v) \<and>
   (\<forall>s. first_match (candidate_parse s) (brace_starts s) = None \<longrightarrow>
      extractJsonFromText (Str s) = Inr Null) \<and>
   (\<forall>s. first_match recover_block (fence_blocks s) = None \<longrightarrow>
      extractJsonFromFences (Str s) = Inr Null) \<and>
   (\<forall>s. extractJsonFromFences (Str s) = Inr Null \<and> extractJsonFromText (Str s) = Inr Null \<longrightarrow>
      analysisResult (Str s) = fallbackResult (Str s))"
proof (intro conjI allI impI)
  fix x
  show "\<exists>v. extractJsonFromText x = Inr v" by (rule extractJsonFromText_returns)
  show "\<exists>v. extractJsonFromFences x = Inr v" by (rule extractJsonFromFences_returns)
next
  fix s
  assume "first_match (candidate_parse s) (brace_starts s) = None"
  then show "extractJsonFromText (Str s) = Inr Null"
    by (simp add: extractJsonFromText_Str first_parsed_def)
next
  fix s
  assume "first_match recover_block (fence_blocks s) = None"
  then show "extractJsonFromFences (Str s) = Inr Null"
    by (simp add: extractJsonFromFences_Str first_recovered_def)
next
  fix s
  assume "extractJsonFromFences (Str s) = Inr Null \<and> extractJsonFromText (Str s) = Inr Null"
  then have "first_recovered s = Null" and "first_parsed s = Null"
    by (simp_all add: extractJsonFromFences_Str extractJsonFromText_Str)
  then show "analysisResult (Str s) = fallbackResult (Str s)"
    by (simp add: analysisResult_Str)
qed

theorem extraction_never_throws_witness:
  "candidate_parse (utf16 ''a {b} c'') 2 = None \<and>
   JSON_parse (utf16 ''{b}'') = Inl SyntaxError \<and>
   extractJsonFromText (Str (utf16 ''a {b} c'')) = Inr Null \<and>
   extractJsonFromFences (Str (utf16 ''a {b} c'')) = Inr Null \<and>
   analysisResult (Str (utf16 ''a {b} c'')) = fallbackResult (Str (utf16 ''a {b} c''))"
proof -
  have c: "candidate_parse (utf16 ''a {b} c'') 2 = None"
    "JSON_parse (utf16 ''{b}'') = Inl SyntaxError"
    by code_simp+
  have t: "first_match (candidate_parse (utf16 ''a {b} c'')) (brace_starts (utf16 ''a {b} c'')) = None"
    by code_simp
  have f: "first_match recover_block (fence_blocks (utf16 ''a {b} c'')) = None"
    by code_simp
  from extraction_never_throws t
  have 1: "extractJsonFromText (Str (utf16 ''a {b} c'')) = Inr Null" by blast
  from extraction_never_throws f
  have 2: "extractJsonFromFences (Str (utf16 ''a {b} c'')) = Inr Null" by blast
  from extraction_never_throws 1 2
  have 3: "analysisResult (Str (utf16 ''a {b} c'')) = fallbackResult (Str (utf16 ''a {b} c''))"
    by blast
  from c 1 2 3 show ?thesis by simp
qed

text \<open>
  Claim C7. For the empty string and for any value that is not a string, both extraction
  functions return \<open>null\<close>; the fenced-block extraction does so before its pattern object
  exists, leaving the heap as it was.
\<close>

theorem empty_or_non_string_input:
  "extractJsonFromText (Str []) = Inr Null \<and>
   extractJsonFromFences (Str []) = Inr Null \<and>
   (\<forall>h. extractJsonFromFences_heap (Str []) h = (Inr Null, h)) \<and>
   (\<forall>x. typeof x \<noteq> ''string'' \<longrightarrow>
      extractJsonFromText x = Inr Null \<and> extractJsonFromFences x = Inr Null \<and>
      (\<forall>h. extractJsonFromFences_heap x h = (Inr Null, h)))"
  by (simp add: extractJsonFromText_def extractJsonFromFences_def extractJsonFromFences_heap_def)

theorem empty_or_non_string_input_witness:
  "extractJsonFromText Undefined = Inr Null \<and>
   extractJsonFromFences Undefined = Inr Null \<and>
   extractJsonFromText (Num False 42 0) = Inr Null \<and>
   extractJsonFromFences (Obj [(utf16 ''x'', Null)]) = Inr Null \<and>
   extractJsonFromFences_heap (Arr []) [3] = (Inr Null, [3])"
proof -
  have "typeof Undefined \<noteq> ''string''" "typeof (Num False 42 0) \<noteq> ''string''"
    "typeof (Obj [(utf16 ''x'', Null)]) \<noteq> ''string''" "typeof (Arr []) \<noteq> ''string''"
    by simp_all
  with empty_or_non_string_input show ?thesis by blast
qed

text \<open>
  Claim C9. The depth counts every brace, those inside string literals too. The text
  \<open>{"a":"}"}\<close> is a JSON object, yet the extraction returns \<open>null\<close> for it: its only opening
  brace is at index \<open>0\<close>, the candidate for it ends at the brace inside the string, and
  that candidate is not JSON.
\<close>

theorem brace_in_string_not_found:
  "JSON_parse brace_in_string_text = Inr (Obj [(utf16 ''a'', Str (utf16 ''}''))]) \<and>
   brace_starts brace_in_string_text = [0] \<and>
   candidate brace_in_string_text 0 = Some (utf16 ''{\"a\":\"}'') \<and>
   JSON_parse (utf16 ''{\"a\":\"}'') = Inl SyntaxError \<and>
   extractJsonFromText (Str brace_in_string_text) = Inr Null"
  by code_simp

theorem brace_in_string_not_found_witness:
  "extractJsonFromText (Str brace_in_string_text) = Inr Null \<and>
   analysisResult (Str brace_in_string_text) = fallbackResult (Str brace_in_string_text)"
proof -
  have f: "first_recovered brace_in_string_text = Null" by code_simp
  from brace_in_string_not_found
  have t: "extractJsonFromText (Str brace_in_string_text) = Inr Null" by blast
  then have "first_parsed brace_in_string_text = Null"
    by (simp add: extractJsonFromText_Str)
  with f t show ?thesis by (simp add: analysisResult_Str)
qed



section \<open>Labels and values of fenced blocks\<close>






section \<open>The matching close\<close>










section \<open>Calls and the heap\<close>

lemma fences_loop_heap_eq:
  "re < length h \<Longrightarrow>
     \<exists>li. fences_loop_heap s re h = (fences_loop s (h ! re), h[re := li])"
proof (induction s re h rule: fences_loop_heap.induct)
  case (1 s re h)
  obtain m li' where ex: "fenceRegex_exec s (h ! re) = (m, li')"
    by (cases "fenceRegex_exec s (h ! re)")
  show ?case
  proof (cases m)
    case None
    with ex "1.prems" have "fences_loop_heap s re h = (Inr Null, h[re := li'])"
      by (subst fences_loop_heap.simps) simp
    moreover from ex None have "fences_loop s (h ! re) = Inr Null"
      by (subst fences_loop.simps) simp
    ultimately show ?thesis by auto
  next
    case (Some m1)
    show ?thesis
    proof (cases "JSON_parse (trim m1)")
      case (Inr v)
      with ex Some "1.prems" have "fences_loop_heap s re h = (Inr v, h[re := li'])"
        by (subst fences_loop_heap.simps) simp
      moreover from ex Some Inr have "fences_loop s (h ! re) = Inr v"
        by (subst fences_loop.simps) simp
      ultimately show ?thesis by auto
    next
      case (Inl e)
      obtain parsed where t: "extractJsonFromText (Str (trim m1)) = Inr parsed"
        by (simp add: extractJsonFromText_Str)
      show ?thesis
      proof (cases "to_boolean parsed")
        case True
        with ex Some Inl t "1.prems"
        have "fences_loop_heap s re h = (Inr parsed, h[re := li'])"
          by (subst fences_loop_heap.simps) simp
        moreover from ex Some Inl t True have "fences_loop s (h ! re) = Inr parsed"
          by (subst fences_loop.simps) simp
        ultimately show ?thesis by auto
      next
        case False
        have "\<exists>li. fences_loop_heap s re (h[re := li']) =
                 (fences_loop s (h[re := li'] ! re), h[re := li', re := li])"
          using "1.prems" ex [symmetric] Some Inl t False
          by (intro "1.IH") simp_all
        then obtain li where r: "fences_loop_heap s re (h[re := li']) =
            (fences_loop s li', h[re := li])"
          using "1.prems" by auto
        from ex Some Inl t False "1.prems"
        have "fences_loop_heap s re h = fences_loop_heap s re (h[re := li'])"
          by (subst fences_loop_heap.simps) simp
        moreover from ex Some Inl t False
        have "fences_loop s (h ! re) = fences_loop s li'"
          by (subst fences_loop.simps) simp
        ultimately show ?thesis using r by auto
      qed
    qed
  qed
qed

lemma extractJsonFromFences_heap_eq:
  "\<exists>h'. extractJsonFromFences_heap x h = (extractJsonFromFences x, h') \<and>
        take (length h) h' = h"
proof (cases "\<not> to_boolean x \<or> typeof x \<noteq> ''string''")
  case True
  then show ?thesis
    by (simp add: extractJsonFromFences_heap_def extractJsonFromFences_def)
next
  case False
  then obtain t where x: "x = Str t" by (cases x) auto
  have "length h < length (h @ [0])" by simp
  then obtain li where "fences_loop_heap t (length h) (h @ [0]) =
      (fences_loop t ((h @ [0]) ! length h), (h @ [0])[length h := li])"
    using fences_loop_heap_eq by blast
  then have "fences_loop_heap t (length h) (h @ [0]) = (fences_loop t 0, h @ [li])"
    by simp
  with False x show ?thesis
    by (simp add: extractJsonFromFences_heap_def extractJsonFromFences_def)
qed

text \<open>
  Claim C8. The result of the fenced-block extraction depends on its argument alone, not on
  the heap it runs in; the call changes no object that existed before it, the pattern
  object it works on being its own; so a second call on the same argument, after the
  first, returns the same result. \<open>extractJsonFromText\<close> writes only to its local array
  and counters, which are arguments of the recursive functions here. A string is a primitive value,
  which no operation changes.
\<close>

theorem extraction_deterministic:
  "(\<forall>x h. fst (extractJsonFromFences_heap x h) = extractJsonFromFences x) \<and>
   (\<forall>x h. take (length h) (snd (extractJsonFromFences_heap x h)) = h) \<and>
   (\<forall>x h. fst (extractJsonFromFences_heap x (snd (extractJsonFromFences_heap x h))) =
           fst (extractJsonFromFences_heap x h))"
proof -
  have a: "fst (extractJsonFromFences_heap x h) = extractJsonFromFences x" for x h
    using extractJsonFromFences_heap_eq [of x h] by auto
  have b: "take (length h) (snd (extractJsonFromFences_heap x h)) = h" for x h
    using extractJsonFromFences_heap_eq [of x h] by auto
  from a b show ?thesis by simp
qed

theorem extraction_deterministic_witness:
  "fst (extractJsonFromFences_heap (Str three_blocks_text) [5, 0]) =
     Inr (Obj [(utf16 ''x'', Num False 1 0)]) \<and>
   snd (extractJsonFromFences_heap (Str three_blocks_text) [5, 0]) = [5, 0, 35] \<and>
   fst (extractJsonFromFences_heap (Str three_blocks_text)
          (snd (extractJsonFromFences_heap (Str three_blocks_text) [5, 0]))) =
     Inr (Obj [(utf16 ''x'', Num False 1 0)])"
proof -
  have v: "extractJsonFromFences (Str three_blocks_text) = Inr (Obj [(utf16 ''x'', Num False 1 0)])"
    by code_simp
  have s: "snd (extractJsonFromFences_heap (Str three_blocks_text) [5, 0]) = [5, 0, 35]"
    by code_simp
  from extraction_deterministic v s show ?thesis by simp
qed

end
